theory Spec2Isabelle
  imports Complex_Main
begin

section \<open>Python values and errors\<close>

text \<open>
  The exceptions that the modelled parts of \<open>process_climate_data.py\<close> can raise.
  A function that may raise returns \<open>py_error + 'a\<close>, with \<open>Inl\<close> the exception.
\<close>

datatype py_error = IndexError | KeyError | ValueError | ZeroDivisionError

text \<open>Reading a list at an index: Python raises IndexError out of range.\<close>

definition py_nth :: "'a list \<Rightarrow> nat \<Rightarrow> py_error + 'a" where
  "py_nth xs i = (if i < length xs then Inr (xs ! i) else Inl IndexError)"

text \<open>A list comprehension whose body may raise: the first exception ends it.\<close>

fun comprehension :: "('a \<Rightarrow> py_error + 'b) \<Rightarrow> 'a list \<Rightarrow> py_error + 'b list" where
  "comprehension f [] = Inr []"
| "comprehension f (x # xs) =
     (case f x of
        Inl e \<Rightarrow> Inl e
      | Inr y \<Rightarrow> (case comprehension f xs of Inl e \<Rightarrow> Inl e | Inr ys \<Rightarrow> Inr (y # ys)))"

text \<open>Python's \<open>xs[a:b]\<close> for non-negative bounds: never raises, clips at the end.\<close>

definition slice :: "'a list \<Rightarrow> nat \<Rightarrow> nat \<Rightarrow> 'a list" where
  "slice xs a b = take (b - a) (drop a xs)"


section \<open>RunDetector: the function \<open>consecutive\<close>\<close>

text \<open>
  \<^verbatim>\<open>count = [indexes[i] - indexes[i-1] for i in range(1, len(indexes))]\<close>
  \<^verbatim>\<open>count = np.asarray([1] + count)\<close>
  \<^verbatim>\<open>start = [0] + list(np.where(count > 1.)[0])\<close>
  \<^verbatim>\<open>finish = [e for e in list(np.where(count > 1.)[0])] + [len(count)]\<close>
  \<^verbatim>\<open>idxs = [indexes[start[i]:finish[i]] for i in range(len(start))]\<close>
  \<^verbatim>\<open>idxs = [e for e in idxs if len(e) > 1]\<close>
\<close>

definition consecutive :: "int list \<Rightarrow> py_error + int list list" where
  "consecutive indexes =
     (case comprehension
             (\<lambda>i. case py_nth indexes i of
                     Inl e \<Rightarrow> Inl e
                   | Inr a \<Rightarrow> (case py_nth indexes (i - 1) of
                                 Inl e \<Rightarrow> Inl e
                               | Inr b \<Rightarrow> Inr (a - b)))
             [1..<length indexes] of
        Inl e \<Rightarrow> Inl e
      | Inr dif \<Rightarrow>
          (let count = 1 # dif;
               brk = filter (\<lambda>i. count ! i > 1) [0..<length count];
               start = 0 # brk;
               finish = brk @ [length count]
           in case comprehension
                     (\<lambda>i. case py_nth start i of
                             Inl e \<Rightarrow> Inl e
                           | Inr s \<Rightarrow> (case py_nth finish i of
                                         Inl e \<Rightarrow> Inl e
                                       | Inr f \<Rightarrow> Inr (slice indexes s f)))
                     [0..<length start] of
                Inl e \<Rightarrow> Inl e
              | Inr idxs \<Rightarrow> Inr (filter (\<lambda>e. length e > 1) idxs)))"

text \<open>
  The same computation with the index reads unchecked. \<open>consecutive_total\<close> below shows
  that no read of \<open>consecutive\<close> is out of range, so this is the value it returns.
\<close>

definition consecutive_count :: "int list \<Rightarrow> int list" where
  "consecutive_count indexes =
     1 # map (\<lambda>i. indexes ! i - indexes ! (i - 1)) [1..<length indexes]"

definition consecutive_idxs :: "int list \<Rightarrow> int list list" where
  "consecutive_idxs indexes =
     (let count = consecutive_count indexes;
          brk = filter (\<lambda>i. count ! i > 1) [0..<length count];
          start = 0 # brk;
          finish = brk @ [length count]
      in map (\<lambda>i. slice indexes (start ! i) (finish ! i)) [0..<length start])"

definition consecutive_val :: "int list \<Rightarrow> int list list" where
  "consecutive_val indexes = filter (\<lambda>e. length e > 1) (consecutive_idxs indexes)"

text \<open>
  The specification's words, for comparison: the list of maximal runs of positions
  (a new run starts wherever the difference to the previous position exceeds 1).
\<close>

fun maximal_runs_spec :: "int list \<Rightarrow> int list list" where
  "maximal_runs_spec [] = []"
| "maximal_runs_spec [x] = [[x]]"
| "maximal_runs_spec (x # y # ys) =
     (if y - x > 1 then [x] # maximal_runs_spec (y # ys)
      else (case maximal_runs_spec (y # ys) of
              [] \<Rightarrow> [[x]]
            | r # rs \<Rightarrow> (x # r) # rs))"

text \<open>
  A maximal run of \<open>xs\<close>, declaratively: a non-empty contiguous part of \<open>xs\<close> whose
  adjacent elements differ by exactly 1 and that cannot be extended on either side.
\<close>

definition gap_one :: "int list \<Rightarrow> bool" where
  "gap_one r = successively (\<lambda>a b. b = a + 1) r"

definition maximal_run :: "int list \<Rightarrow> int list \<Rightarrow> bool" where
  "maximal_run xs r \<longleftrightarrow>
     r \<noteq> [] \<and> gap_one r \<and>
     (\<exists>pre post. xs = pre @ r @ post \<and>
        (pre = [] \<or> last pre + 1 \<noteq> hd r) \<and>
        (post = [] \<or> last r + 1 \<noteq> hd post))"

text \<open>Cutting a list at successive cut points (used in the proofs only).\<close>

fun segs :: "'a list \<Rightarrow> nat \<Rightarrow> nat list \<Rightarrow> nat \<Rightarrow> 'a list list" where
  "segs xs s [] e = [slice xs s e]"
| "segs xs s (c # cs) e = slice xs s c # segs xs c cs e"


text \<open>A list without a break: no adjacent difference exceeds 1 (used in the proofs).\<close>

definition chain :: "int list \<Rightarrow> bool" where
  "chain r = successively (\<lambda>a b. \<not> b - a > 1) r"


section \<open>Facts about \<open>consecutive\<close>\<close>

lemma comprehension_total:
  "(\<And>x. x \<in> set xs \<Longrightarrow> f x = Inr (g x)) \<Longrightarrow> comprehension f xs = Inr (map g xs)"
  by (induction xs) simp_all

lemma consecutive_total: "consecutive xs = Inr (consecutive_val xs)"
proof -
  have d: "comprehension
             (\<lambda>i. case py_nth xs i of
                     Inl e \<Rightarrow> Inl e
                   | Inr a \<Rightarrow> (case py_nth xs (i - 1) of
                                 Inl e \<Rightarrow> Inl e
                               | Inr b \<Rightarrow> Inr (a - b)))
             [1..<length xs]
           = Inr (map (\<lambda>i. xs ! i - xs ! (i - 1)) [1..<length xs])"
    by (rule comprehension_total) (auto simp: py_nth_def)
  have s: "\<And>st fi. length st = length fi \<Longrightarrow>
             comprehension
               (\<lambda>i. case py_nth st i of
                       Inl e \<Rightarrow> Inl e
                     | Inr s \<Rightarrow> (case py_nth fi i of
                                   Inl e \<Rightarrow> Inl e
                                 | Inr f \<Rightarrow> Inr (slice xs s f)))
               [0..<length st]
             = Inr (map (\<lambda>i. slice xs (st ! i) (fi ! i)) [0..<length st])"
    by (rule comprehension_total) (auto simp: py_nth_def)
  show ?thesis
    unfolding consecutive_def d sum.case Let_def
    by (subst s) (simp_all add: consecutive_val_def consecutive_idxs_def consecutive_count_def Let_def)
qed

lemma map_nth_zip:
  "length as = length bs \<Longrightarrow>
   map (\<lambda>i. f (as ! i) (bs ! i)) [0..<length as] = map (\<lambda>(a, b). f a b) (zip as bs)"
  by (rule nth_equalityI) auto

lemma zip_segs: "map (\<lambda>(a, b). slice xs a b) (zip (s # cs) (cs @ [e])) = segs xs s cs e"
  by (induction cs arbitrary: s) auto

lemma idxs_segs:
  "consecutive_idxs xs =
     segs xs 0 (filter (\<lambda>i. consecutive_count xs ! i > 1) [0..<length (consecutive_count xs)])
       (length (consecutive_count xs))"
proof -
  let ?c = "consecutive_count xs"
  let ?b = "filter (\<lambda>i. ?c ! i > 1) [0..<length ?c]"
  have "length (0 # ?b) = length (?b @ [length ?c])" by simp
  from map_nth_zip [OF this, of "slice xs"] show ?thesis
    unfolding consecutive_idxs_def Let_def by (simp only: zip_segs)
qed

lemma slice_Cons_Suc: "slice (x # xs) (Suc a) (Suc b) = slice xs a b"
  by (simp add: slice_def)

lemma slice_Cons_0: "slice (x # xs) 0 (Suc b) = x # slice xs 0 b"
  by (simp add: slice_def)

lemma segs_shift: "segs (x # xs) (Suc s) (map Suc cs) (Suc e) = segs xs s cs e"
  by (induction cs arbitrary: s) (simp_all add: slice_Cons_Suc)

lemma segs_extend:
  "segs (x # xs) 0 (map Suc cs) (Suc e) =
     (case segs xs 0 cs e of r # rs \<Rightarrow> (x # r) # rs | [] \<Rightarrow> [[x]])"
  by (cases cs) (simp_all add: slice_Cons_0 segs_shift)

lemma count_Cons:
  "consecutive_count (x # y # ys) = 1 # (y - x) # tl (consecutive_count (y # ys))"
proof -
  have "[1..<Suc (Suc (length ys))] = 1 # map Suc [1..<Suc (length ys)]"
    by (metis One_nat_def map_Suc_upt upt_conv_Cons zero_less_Suc Suc_less_eq)
  then show ?thesis
    by (simp add: consecutive_count_def del: upt_Suc)
qed

lemma length_count: "length (consecutive_count (y # ys)) = Suc (length ys)"
  by (simp add: consecutive_count_def del: upt_Suc)

lemma brk_Cons:
  "filter (\<lambda>i. consecutive_count (x # y # ys) ! i > 1) [0..<length (consecutive_count (x # y # ys))]
   = (if y - x > 1 then [1] else []) @
     map Suc (filter (\<lambda>i. consecutive_count (y # ys) ! i > 1) [0..<length (consecutive_count (y # ys))])"
proof -
  let ?c = "consecutive_count (y # ys)"
  let ?c2 = "consecutive_count (x # y # ys)"
  have c0: "?c ! 0 = 1" by (simp add: consecutive_count_def)
  have len: "length ?c = Suc (length ys)" by (rule length_count)
  have len2: "length ?c2 = Suc (Suc (length ys))"
    using length_count [of x "y # ys"] by simp
  have up2: "[0..<Suc (Suc (length ys))] = 0 # 1 # map Suc [1..<Suc (length ys)]"
    by (metis One_nat_def map_Suc_upt upt_conv_Cons zero_less_Suc Suc_less_eq)
  have up1: "[0..<Suc (length ys)] = 0 # [1..<Suc (length ys)]"
    by (metis One_nat_def upt_conv_Cons zero_less_Suc)
  have nth2: "\<And>i. 1 \<le> i \<Longrightarrow> i < Suc (length ys) \<Longrightarrow> ?c2 ! Suc i = ?c ! i"
  proof -
    fix i :: nat assume "1 \<le> i" "i < Suc (length ys)"
    then obtain j where j: "i = Suc j" "j < length (tl ?c)"
      using len by (cases i) auto
    then show "?c2 ! Suc i = ?c ! i"
      by (simp add: count_Cons [of x y ys] nth_tl)
  qed
  have f2: "filter (\<lambda>i. ?c2 ! i > 1) (map Suc [1..<Suc (length ys)])
            = map Suc (filter (\<lambda>i. ?c ! i > 1) [1..<Suc (length ys)])"
    unfolding filter_map o_def
    by (rule arg_cong [where f = "map Suc"], rule filter_cong) (auto simp: nth2)
  have h0: "\<not> ?c2 ! 0 > 1" by (simp add: count_Cons)
  have h1: "?c2 ! 1 = y - x" by (simp add: count_Cons)
  show ?thesis
    unfolding len len2 up2 using h0 h1 f2 c0 by (simp add: up1 del: upt_Suc)
qed

lemma idxs_Cons:
  "consecutive_idxs (x # y # ys) =
     (if y - x > 1 then [x] # consecutive_idxs (y # ys)
      else (case consecutive_idxs (y # ys) of [] \<Rightarrow> [[x]] | r # rs \<Rightarrow> (x # r) # rs))"
proof -
  let ?b = "filter (\<lambda>i. consecutive_count (y # ys) ! i > 1) [0..<length (consecutive_count (y # ys))]"
  have l1: "length (consecutive_count (y # ys)) = Suc (length ys)" by (rule length_count)
  have l2: "length (consecutive_count (x # y # ys)) = Suc (Suc (length ys))"
    using length_count [of x "y # ys"] by simp
  show ?thesis
  proof (cases "y - x > 1")
    case True
    have "consecutive_idxs (x # y # ys)
          = segs (x # y # ys) 0 (1 # map Suc ?b) (Suc (Suc (length ys)))"
      using True unfolding idxs_segs [of "x # y # ys"] brk_Cons
      by (simp only: l1 l2 if_True append_Cons append_Nil)
    also have "\<dots> = [x] # segs (y # ys) 0 ?b (Suc (length ys))"
      using segs_shift [of x "y # ys" 0 ?b "Suc (length ys)"] by (simp add: slice_def)
    finally show ?thesis using True by (simp only: idxs_segs [of "y # ys"] l1 if_True)
  next
    case False
    have "consecutive_idxs (x # y # ys)
          = segs (x # y # ys) 0 (map Suc ?b) (Suc (Suc (length ys)))"
      using False unfolding idxs_segs [of "x # y # ys"] brk_Cons
      by (simp only: l1 l2 if_False append_Nil)
    also have "\<dots> = (case segs (y # ys) 0 ?b (Suc (length ys)) of r # rs \<Rightarrow> (x # r) # rs | [] \<Rightarrow> [[x]])"
      by (rule segs_extend)
    finally show ?thesis using False by (simp only: idxs_segs [of "y # ys"] l1 if_False)
  qed
qed

lemma idxs_single: "consecutive_idxs [x] = [[x]]"
  by (simp add: consecutive_idxs_def consecutive_count_def slice_def)

lemma idxs_Nil: "consecutive_idxs [] = [[]]"
  by (simp add: consecutive_idxs_def consecutive_count_def slice_def)

lemma idxs_runs: "xs \<noteq> [] \<Longrightarrow> consecutive_idxs xs = maximal_runs_spec xs"
proof (induction xs rule: maximal_runs_spec.induct)
  case 1
  then show ?case by simp
next
  case (2 x)
  show ?case by (simp add: idxs_single)
next
  case (3 x y ys)
  then show ?case by (simp add: idxs_Cons)
qed

lemma consecutive_val_runs:
  "consecutive_val xs = filter (\<lambda>r. 1 < length r) (maximal_runs_spec xs)"
proof (cases xs)
  case Nil
  then show ?thesis by (simp add: consecutive_val_def idxs_Nil)
next
  case (Cons a as)
  then show ?thesis by (simp add: consecutive_val_def idxs_runs)
qed


section \<open>Claims about the run detector\<close>

text \<open>
  C10. The run detector is total at its boundary inputs: on the empty position list and
  on any single-element position list it returns the empty list of runs, and raises
  no error (the result is \<open>Inr\<close>, never \<open>Inl\<close>).
\<close>

theorem consecutive_boundary_inputs:
  "consecutive [] = Inr [] \<and> consecutive [x] = Inr []"
  by (simp add: consecutive_total consecutive_val_runs)

section \<open>Maximal runs\<close>

lemma runs_not_Nil: "xs \<noteq> [] \<Longrightarrow> maximal_runs_spec xs \<noteq> []"
  by (induction xs rule: maximal_runs_spec.induct) (auto split: list.splits)

lemma runs_first:
  "xs \<noteq> [] \<Longrightarrow>
   \<exists>r0 post. maximal_runs_spec xs = r0 # maximal_runs_spec post \<and> xs = r0 @ post \<and>
     r0 \<noteq> [] \<and> hd r0 = hd xs \<and> chain r0 \<and> (post = [] \<or> last r0 + 1 < hd post)"
proof (induction xs rule: maximal_runs_spec.induct)
  case 1
  then show ?case by simp
next
  case (2 x)
  show ?case by (rule exI [of _ "[x]"], rule exI [of _ "[]"]) (simp add: chain_def)
next
  case (3 x y ys)
  show ?case
  proof (cases "y - x > 1")
    case True
    show ?thesis
      by (rule exI [of _ "[x]"], rule exI [of _ "y # ys"]) (use True in \<open>simp add: chain_def\<close>)
  next
    case False
    from 3(2) [OF False] have
      "\<exists>r0 post. maximal_runs_spec (y # ys) = r0 # maximal_runs_spec post \<and>
         y # ys = r0 @ post \<and> r0 \<noteq> [] \<and> hd r0 = hd (y # ys) \<and> chain r0 \<and>
         (post = [] \<or> last r0 + 1 < hd post)"
      by simp
    then obtain r0 post where
      h0: "maximal_runs_spec (y # ys) = r0 # maximal_runs_spec post \<and>
         y # ys = r0 @ post \<and> r0 \<noteq> [] \<and> hd r0 = hd (y # ys) \<and> chain r0 \<and>
         (post = [] \<or> last r0 + 1 < hd post)"
      by blast
    have
      h: "maximal_runs_spec (y # ys) = r0 # maximal_runs_spec post" "y # ys = r0 @ post"
         "r0 \<noteq> []" "hd r0 = y" "chain r0" "post = [] \<or> last r0 + 1 < hd post"
      using h0 by (blast, blast, blast, (use h0 list.sel(1) in metis), blast, blast)
    have m: "maximal_runs_spec (x # y # ys) = (x # r0) # maximal_runs_spec post"
      using False h(1) by simp
    have e: "x # y # ys = (x # r0) @ post" using h(2) by simp
    have c: "chain (x # r0)"
      using False h(3,4,5) by (simp add: chain_def successively_Cons)
    have l: "post = [] \<or> last (x # r0) + 1 < hd post" using h(3,6) by simp
    have n: "x # r0 \<noteq> []" "hd (x # r0) = hd (x # y # ys)" by simp_all
    show ?thesis
      by (rule exI [of _ "x # r0"], rule exI [of _ post], intro conjI)
         (rule m, rule e, rule n(1), rule n(2), rule c, rule l)
  qed
qed

lemma runs_chain: "r \<noteq> [] \<Longrightarrow> chain r \<Longrightarrow> maximal_runs_spec r = [r]"
proof (induction r rule: maximal_runs_spec.induct)
  case 1
  then show ?case by simp
next
  case (2 x)
  show ?case by simp
next
  case (3 x y ys)
  then show ?case by (auto simp: chain_def)
qed

lemma runs_append:
  "pre \<noteq> [] \<Longrightarrow> zs \<noteq> [] \<Longrightarrow> last pre + 1 < hd zs \<Longrightarrow>
   maximal_runs_spec (pre @ zs) = maximal_runs_spec pre @ maximal_runs_spec zs"
proof (induction pre rule: maximal_runs_spec.induct)
  case 1
  then show ?case by simp
next
  case (2 x)
  then show ?case by (cases zs) auto
next
  case (3 x y ys)
  then show ?case
    using runs_not_Nil [of "y # ys"] by (auto split: list.splits)
qed

lemma runs_decomp:
  "r \<in> set (maximal_runs_spec xs) \<Longrightarrow>
   \<exists>pre post. xs = pre @ r @ post \<and> r \<noteq> [] \<and> chain r \<and>
     (pre = [] \<or> last pre + 1 < hd r) \<and> (post = [] \<or> last r + 1 < hd post)"
proof (induction "length xs" arbitrary: xs rule: less_induct)
  case less
  show ?case
  proof (cases "xs = []")
    case True
    with less.prems show ?thesis by simp
  next
    case False
    from runs_first [OF False] obtain r0 post0 where
      h: "maximal_runs_spec xs = r0 # maximal_runs_spec post0" "xs = r0 @ post0"
         "r0 \<noteq> []" "chain r0" "post0 = [] \<or> last r0 + 1 < hd post0"
      by auto
    show ?thesis
    proof (cases "r = r0")
      case True
      show ?thesis
        by (rule exI [of _ "[]"], rule exI [of _ post0]) (use True h in simp)
    next
      case False
      with less.prems h have rin: "r \<in> set (maximal_runs_spec post0)" by simp
      have "length post0 < length xs" using h by simp
      from less.hyps [OF this rin] obtain pre post where
        d: "post0 = pre @ r @ post" "r \<noteq> []" "chain r"
           "pre = [] \<or> last pre + 1 < hd r" "post = [] \<or> last r + 1 < hd post"
        by auto
      have "post0 \<noteq> []" using d by simp
      with h have b: "last r0 + 1 < hd post0" by simp
      have b': "last (r0 @ pre) + 1 < hd r"
      proof (cases "pre = []")
        case True
        then show ?thesis using b d by (simp add: hd_append)
      next
        case False
        then show ?thesis using d by simp
      qed
      show ?thesis
        by (rule exI [of _ "r0 @ pre"], rule exI [of _ post])
           (use h d b' in simp)
    qed
  qed
qed

lemma runs_contains:
  assumes "xs = pre @ r @ post" "r \<noteq> []" "chain r"
    "pre = [] \<or> last pre + 1 < hd r" "post = [] \<or> last r + 1 < hd post"
  shows "r \<in> set (maximal_runs_spec xs)"
proof -
  have a: "maximal_runs_spec (r @ post) = r # maximal_runs_spec post"
  proof (cases "post = []")
    case True
    then show ?thesis using assms by (simp add: runs_chain)
  next
    case False
    then show ?thesis using assms by (simp add: runs_append runs_chain)
  qed
  show ?thesis
  proof (cases "pre = []")
    case True
    then show ?thesis using a assms by simp
  next
    case False
    then have "last pre + 1 < hd (r @ post)" using assms by (simp add: hd_append)
    with False assms have "maximal_runs_spec (pre @ (r @ post))
        = maximal_runs_spec pre @ maximal_runs_spec (r @ post)"
      by (intro runs_append) auto
    then show ?thesis using a assms by simp
  qed
qed

lemma successively_sorted_gap:
  "sorted_wrt (<) (r :: int list) \<Longrightarrow> chain r \<longleftrightarrow> gap_one r"
  unfolding chain_def gap_one_def
  by (induction r rule: induct_list012) auto

lemma concat_runs: "concat (maximal_runs_spec xs) = xs"
proof (induction xs rule: maximal_runs_spec.induct)
  case 1
  show ?case by simp
next
  case (2 x)
  show ?case by simp
next
  case (3 x y ys)
  then show ?case
    using runs_not_Nil [of "y # ys"] by (auto split: list.splits)
qed

lemma sorted_boundary:
  "sorted_wrt (<) (pre @ r @ post) \<Longrightarrow> r \<noteq> [] \<Longrightarrow>
   (pre = [] \<or> last pre + 1 < hd r) = (pre = [] \<or> last pre + 1 \<noteq> hd (r :: int list))"
  by (cases pre rule: rev_cases; cases r) (auto simp: sorted_wrt_append)

lemma sorted_boundary2:
  "sorted_wrt (<) (pre @ r @ post) \<Longrightarrow> r \<noteq> [] \<Longrightarrow>
   (post = [] \<or> last r + 1 < hd post) = (post = [] \<or> last r + 1 \<noteq> hd (post :: int list))"
  by (cases post; cases r rule: rev_cases) (auto simp: sorted_wrt_append)

lemma runs_iff_maximal:
  assumes "sorted_wrt (<) xs"
  shows "r \<in> set (maximal_runs_spec xs) \<longleftrightarrow> maximal_run xs r"
proof
  assume "r \<in> set (maximal_runs_spec xs)"
  from runs_decomp [OF this] obtain pre post where
    d: "xs = pre @ r @ post" "r \<noteq> []" "chain r"
       "pre = [] \<or> last pre + 1 < hd r" "post = [] \<or> last r + 1 < hd post"
    by auto
  have sr: "sorted_wrt (<) r" using assms d by (simp add: sorted_wrt_append)
  have "gap_one r" using d sr by (simp add: successively_sorted_gap)
  moreover have "pre = [] \<or> last pre + 1 \<noteq> hd r"
    using sorted_boundary [of pre r post] assms d by simp
  moreover have "post = [] \<or> last r + 1 \<noteq> hd post"
    using sorted_boundary2 [of pre r post] assms d by simp
  ultimately show "maximal_run xs r"
    unfolding maximal_run_def using d by blast
next
  assume "maximal_run xs r"
  then obtain pre post where
    d: "xs = pre @ r @ post" "r \<noteq> []" "gap_one r"
       "pre = [] \<or> last pre + 1 \<noteq> hd r" "post = [] \<or> last r + 1 \<noteq> hd post"
    unfolding maximal_run_def by blast
  have sr: "sorted_wrt (<) r" using assms d by (simp add: sorted_wrt_append)
  have c: "chain r" using d sr by (simp add: successively_sorted_gap)
  have p1: "pre = [] \<or> last pre + 1 < hd r"
    using sorted_boundary [of pre r post] assms d by simp
  have p2: "post = [] \<or> last r + 1 < hd post"
    using sorted_boundary2 [of pre r post] assms d by simp
  show "r \<in> set (maximal_runs_spec xs)"
    by (rule runs_contains [OF d(1) d(2) c p1 p2])
qed

text \<open>
  C8. For every strictly ascending sequence of integer positions, the run detector
  returns exactly the maximal runs of positions whose adjacent gap is 1, with the runs
  of length 1 discarded: its result is the list of all maximal runs, in order and
  covering the input, filtered to length above 1; a list is among the maximal runs
  exactly if it is a maximal gap-1 stretch of the input. On [1,2,3,7,8,10] it returns
  [[1,2,3],[7,8]].
\<close>

theorem consecutive_maximal_runs:
  assumes "sorted_wrt (<) xs"
  shows "consecutive xs = Inr (filter (\<lambda>r. 1 < length r) (maximal_runs_spec xs)) \<and>
         concat (maximal_runs_spec xs) = xs \<and>
         (\<forall>r. r \<in> set (maximal_runs_spec xs) \<longleftrightarrow> maximal_run xs r) \<and>
         consecutive [1, 2, 3, 7, 8, 10] = Inr [[1, 2, 3], [7, 8]]"
  using assms runs_iff_maximal
  by (simp add: consecutive_total consecutive_val_runs concat_runs)

theorem consecutive_maximal_runs_witness:
  "sorted_wrt (<) [1, 2, 3, 7, 8, 10 :: int] \<and>
   consecutive [1, 2, 3, 7, 8, 10] = Inr [[1, 2, 3], [7, 8]] \<and>
   (\<forall>r. r \<in> set (maximal_runs_spec [1, 2, 3, 7, 8, 10]) \<longleftrightarrow> maximal_run [1, 2, 3, 7, 8, 10] r)"
proof -
  have h: "sorted_wrt (<) [1, 2, 3, 7, 8, 10 :: int]" by simp
  show ?thesis using h consecutive_maximal_runs [OF h] by simp
qed

end
